theory Spec2Isabelle
  imports Main
begin

section \<open>JavaScript values\<close>

text \<open>
  The values \<open>DataBatcher\<close> handles: what a caller can pass to \<open>add\<close> and to the
  constructor. Numbers are the integer-valued ones and \<open>NaN\<close>; the batcher only tests a
  value for truthiness and copies it, and a non-integer number behaves there like any
  non-zero integer. An object is its list of own enumerable properties, in property order.
\<close>

datatype jsval =
    JUndefined
  | JNull
  | JBool bool
  | JNum int
  | JNaN
  | JStr string
  | JFunc nat
  | JArr "jsval list"
  | JObj "(string \<times> jsval) list"

text \<open>\<open>!v\<close> is \<open>\<not> truthy v\<close>: the falsy values are \<open>undefined\<close>, \<open>null\<close>, \<open>false\<close>,
  \<open>0\<close>, \<open>NaN\<close> and the empty string; every object, array and function is truthy.\<close>

fun truthy :: "jsval \<Rightarrow> bool" where
  "truthy JUndefined = False"
| "truthy JNull = False"
| "truthy (JBool b) = b"
| "truthy (JNum n) = (n \<noteq> 0)"
| "truthy JNaN = False"
| "truthy (JStr s) = (s \<noteq> [])"
| "truthy (JFunc f) = True"
| "truthy (JArr vs) = True"
| "truthy (JObj kvs) = True"

fun typeof :: "jsval \<Rightarrow> string" where
  "typeof JUndefined = ''undefined''"
| "typeof JNull = ''object''"
| "typeof (JBool b) = ''boolean''"
| "typeof (JNum n) = ''number''"
| "typeof JNaN = ''number''"
| "typeof (JStr s) = ''string''"
| "typeof (JFunc f) = ''function''"
| "typeof (JArr vs) = ''object''"
| "typeof (JObj kvs) = ''object''"

text \<open>\<open>a || b\<close>\<close>

definition js_or :: "jsval \<Rightarrow> jsval \<Rightarrow> jsval" where
  "js_or a b = (if truthy a then a else b)"

text \<open>The decimal name of an array index, as a property key.\<close>

function dec :: "nat \<Rightarrow> string" where
  "dec n = (if n < 10 then [''0123456789'' ! n] else dec (n div 10) @ [''0123456789'' ! (n mod 10)])"
  by pat_completeness auto
termination
  by (relation "measure id") auto

definition indexed :: "jsval list \<Rightarrow> (string \<times> jsval) list" where
  "indexed vs = zip (map dec [0..<length vs]) vs"

text \<open>The own enumerable properties that \<open>{...v}\<close> copies: those of an object, the
  elements of an array and the characters of a string by index, none of any other value.\<close>

fun own_props :: "jsval \<Rightarrow> (string \<times> jsval) list" where
  "own_props (JObj kvs) = kvs"
| "own_props (JArr vs) = indexed vs"
| "own_props (JStr s) = indexed (map (\<lambda>c. JStr [c]) s)"
| "own_props v = []"

text \<open>\<open>o[k] = v\<close> on a property list: an existing key keeps its place, a new one goes last.\<close>

fun set_prop :: "string \<Rightarrow> jsval \<Rightarrow> (string \<times> jsval) list \<Rightarrow> (string \<times> jsval) list" where
  "set_prop k v [] = [(k, v)]"
| "set_prop k v ((k', v') # kvs) =
     (if k' = k then (k, v) # kvs else (k', v') # set_prop k v kvs)"

text \<open>\<open>o[k]\<close>: \<open>undefined\<close> for a missing key.\<close>

definition get_prop :: "(string \<times> jsval) list \<Rightarrow> string \<Rightarrow> jsval" where
  "get_prop kvs k = (case map_of kvs k of None \<Rightarrow> JUndefined | Some v \<Rightarrow> v)"

text \<open>\<open>{...a, ...b}\<close>: the properties of \<open>a\<close>, each property of \<open>b\<close> assigned over them.\<close>

definition assign_props :: "(string \<times> jsval) list \<Rightarrow> (string \<times> jsval) list \<Rightarrow> (string \<times> jsval) list" where
  "assign_props a b = foldl (\<lambda>acc (k, v). set_prop k v acc) a b"

text \<open>
  \<open>xs.slice(start)\<close> with an integral \<open>start\<close>: a negative start counts from the end and
  is clamped at the first element, a non-negative one is clamped at the length.
\<close>

definition slice_from :: "int \<Rightarrow> 'a list \<Rightarrow> 'a list" where
  "slice_from start xs =
     (if start < 0 then drop (nat (max (int (length xs) + start) 0)) xs
      else drop (min (nat start) (length xs)) xs)"

text \<open>
  \<open>-m / 2\<close> as \<open>slice\<close> reads it: the quotient is truncated toward zero, so for a
  non-negative integer \<open>m\<close> it is minus the integer half of \<open>m\<close> (and \<open>-0\<close> reads as 0).
\<close>

definition neg_half :: "nat \<Rightarrow> int" where
  "neg_half m = - int (m div 2)"

section \<open>The batcher and its host\<close>

text \<open>Which branch of \<open>sendBatch\<close> a batch takes.\<close>

datatype route = ViaCallback | Logged | ViaFetch

record payload =
  events :: "jsval list"
  batchSize :: nat
  timestamp :: int

datatype error = CallbackError | FetchError | ApiError nat string | BodyError

datatype log_line = Info string | Failure string error

text \<open>
  What the host answers to a send: the callback's promise resolves, rejects, or the
  callback throws; \<open>fetch\<close> throws, rejects, or answers with \<open>ok\<close>, \<open>status\<close>,
  \<open>statusText\<close> and a body that \<open>json()\<close> parses (\<open>Some\<close>) or rejects (\<open>None\<close>).
\<close>

datatype callback_reply = CbResolves | CbRejects | CbThrows

datatype fetch_reply = FetchThrows | FetchRejects | FetchResponds bool nat string "jsval option"

record reply =
  of_callback :: callback_reply
  of_fetch :: fetch_reply

text \<open>A \<open>flush\<close> suspended at \<open>await this.sendBatch(batch)\<close>: its local \<open>batch\<close> and the
  branch the send took.\<close>

record suspended =
  batch :: "jsval list"
  route :: route

text \<open>
  One \<open>DataBatcher\<close> instance (the fields of \<open>this\<close>) together with the part of the host
  it touches: the clock \<open>Date.now()\<close> reads, the interval timers that are set, the
  \<open>beforeunload\<close> listener, the calls of \<open>sendBatch\<close> made so far, the suspended
  \<open>flush\<close> calls and the console.
\<close>

record world =
  apiEndpoint :: jsval
  apiKey :: jsval
  batchInterval :: jsval
  queue :: "jsval list"
  maxQueueSize :: nat
  isProcessing :: bool
  onDataCallback :: jsval
  interval :: "nat option"
  clock :: int
  timers :: "nat list"
  next_timer :: nat
  unload_listener :: bool
  sent :: "(route \<times> payload) list"
  pending :: "suspended list"
  console :: "log_line list"

subsection \<open>sendBatch\<close>

definition sendBatch_route :: "world \<Rightarrow> route" where
  "sendBatch_route w =
     (if truthy (onDataCallback w) \<and> typeof (onDataCallback w) = ''function'' then ViaCallback
      else if \<not> truthy (apiEndpoint w) then Logged
      else ViaFetch)"

text \<open>The synchronous part of \<open>sendBatch\<close>, up to its first \<open>await\<close>: it builds the
  payload and calls the callback, or logs, or calls \<open>fetch\<close>.\<close>

definition sendBatch_begin :: "jsval list \<Rightarrow> world \<Rightarrow> world" where
  "sendBatch_begin b w =
     (let p = \<lparr>events = b, batchSize = length b, timestamp = clock w\<rparr>;
          r = sendBatch_route w
      in w\<lparr>sent := sent w @ [(r, p)],
            console := console w @
              (if r = Logged then [Info ''[Data Batcher] No endpoint or callback configured'']
               else [])\<rparr>)"

text \<open>What the promise of \<open>sendBatch\<close> settles to, with the lines it writes on the way:
  \<open>Inr\<close> the value it resolves with, \<open>Inl\<close> the error it rejects with. The lines are
  written when the promise settles; a callback that throws synchronously writes its line
  earlier in the code, before \<open>flush\<close> returns, and the console ends up the same.\<close>

fun sendBatch_settle :: "route \<Rightarrow> reply \<Rightarrow> log_line list \<times> (error + jsval)" where
  "sendBatch_settle ViaCallback r =
     (case of_callback r of
        CbResolves \<Rightarrow>
          ([Info ''[Data Batcher] Data sent to custom callback''],
           Inr (JObj [(''success'', JBool True), (''callback'', JBool True)]))
      | CbRejects \<Rightarrow>
          ([Failure ''[Data Batcher] Callback error:'' CallbackError], Inl CallbackError)
      | CbThrows \<Rightarrow>
          ([Failure ''[Data Batcher] Callback error:'' CallbackError], Inl CallbackError))"
| "sendBatch_settle Logged r =
     ([], Inr (JObj [(''success'', JBool True), (''logged'', JBool True)]))"
| "sendBatch_settle ViaFetch r =
     (case of_fetch r of
        FetchThrows \<Rightarrow> ([], Inl FetchError)
      | FetchRejects \<Rightarrow> ([], Inl FetchError)
      | FetchResponds ok status statusText body \<Rightarrow>
          (if \<not> ok then ([], Inl (ApiError status statusText))
           else (case body of None \<Rightarrow> ([], Inl BodyError) | Some v \<Rightarrow> ([], Inr v))))"

subsection \<open>The methods\<close>

definition getQueueSize :: "world \<Rightarrow> nat" where
  "getQueueSize w = length (queue w)"

text \<open>\<open>flush\<close> up to its \<open>await\<close>: the guard, the flag, the snapshot, the send. The
  returned world holds the suspended rest of the call.\<close>

definition flush :: "world \<Rightarrow> world" where
  "flush w =
     (if length (queue w) = 0 \<or> isProcessing w then w
      else
        let b = queue w;
            w1 = w\<lparr>isProcessing := True, queue := []\<rparr>;
            w2 = sendBatch_begin b w1
        in w2\<lparr>pending := pending w2 @ [\<lparr>batch = b, route = sendBatch_route w1\<rparr>]\<rparr>)"

text \<open>The rest of \<open>flush\<close>, run when the awaited promise settles with the host's reply:
  nothing more on success, the \<open>catch\<close> block on failure, \<open>finally\<close> in both.\<close>

definition flush_resume :: "reply \<Rightarrow> world \<Rightarrow> world" where
  "flush_resume r w =
     (case pending w of
        [] \<Rightarrow> w
      | p # ps \<Rightarrow>
          (let (lines, res) = sendBatch_settle (route p) r;
               w1 = w\<lparr>pending := ps, console := console w @ lines\<rparr>
           in case res of
                Inr v \<Rightarrow> w1\<lparr>isProcessing := False\<rparr>
              | Inl e \<Rightarrow>
                  w1\<lparr>console := console w1 @ [Failure ''[Data Batcher] Error sending batch:'' e],
                      queue := slice_from (neg_half (maxQueueSize w1)) (batch p) @ queue w1,
                      isProcessing := False\<rparr>))"

text \<open>The object literal \<open>{...data, _timestamp: Date.now()}\<close>.\<close>

definition stamped :: "int \<Rightarrow> jsval \<Rightarrow> jsval" where
  "stamped now d = JObj (set_prop ''_timestamp'' (JNum now) (own_props d))"

definition add :: "jsval \<Rightarrow> world \<Rightarrow> world" where
  "add d w =
     (if \<not> truthy d then w
      else
        let w1 = w\<lparr>queue := queue w @ [stamped (clock w) d]\<rparr>
        in if length (queue w1) \<ge> maxQueueSize w1 then flush w1 else w1)"

definition startBatchInterval :: "world \<Rightarrow> world" where
  "startBatchInterval w =
     w\<lparr>interval := Some (next_timer w),
       timers := timers w @ [next_timer w],
       next_timer := next_timer w + 1\<rparr>"

text \<open>The function \<open>startBatchInterval\<close> hands to \<open>setInterval\<close>; the host runs it
  while the timer is set. Only the constructor calls \<open>startBatchInterval\<close>, so the timer
  in \<open>interval\<close> is the one timer of the batcher.\<close>

definition interval_tick :: "world \<Rightarrow> world" where
  "interval_tick w =
     (case interval w of
        None \<Rightarrow> w
      | Some h \<Rightarrow>
          (if h \<in> set (timers w) then (if length (queue w) > 0 then flush w else w) else w))"

definition stopBatchInterval :: "world \<Rightarrow> world" where
  "stopBatchInterval w =
     (case interval w of
        None \<Rightarrow> w
      | Some h \<Rightarrow> (if h \<noteq> 0 then w\<lparr>timers := removeAll h (timers w)\<rparr> else w))"

text \<open>The \<open>beforeunload\<close> listener the constructor registers where \<open>window\<close> exists.\<close>

definition beforeunload :: "world \<Rightarrow> world" where
  "beforeunload w = (if unload_listener w then flush w else w)"

definition clear :: "world \<Rightarrow> world" where
  "clear w = w\<lparr>queue := []\<rparr>"

definition destroy :: "world \<Rightarrow> world" where
  "destroy w = flush (stopBatchInterval w)"

text \<open>
  \<open>new DataBatcher(apiEndpoint, apiKey, batchInterval, onDataCallback)\<close> in a host whose
  clock reads \<open>t0\<close> and that has a \<open>window\<close> or not. An argument left out is
  \<open>undefined\<close> and takes its default.
\<close>

definition new_DataBatcher :: "jsval \<Rightarrow> jsval \<Rightarrow> jsval \<Rightarrow> jsval \<Rightarrow> bool \<Rightarrow> int \<Rightarrow> world" where
  "new_DataBatcher ep key bi cb has_window t0 =
     (startBatchInterval
        \<lparr>apiEndpoint = ep,
         apiKey = key,
         batchInterval = (if bi = JUndefined then JNum 30000 else bi),
         queue = [],
         maxQueueSize = 50,
         isProcessing = False,
         onDataCallback = (if cb = JUndefined then JNull else cb),
         interval = None,
         clock = t0,
         timers = [],
         next_timer = 1,
         unload_listener = False,
         sent = [],
         pending = [],
         console = []\<rparr>)
     \<lparr>unload_listener := has_window\<rparr>"

subsection \<open>The SDK's construction of its batcher\<close>

text \<open>\<open>this.config\<close> of \<open>SEODataSDK\<close>: the defaults, then every property of the caller's
  \<open>config\<close> over them. Keys stay in the order they are assigned; JavaScript would list
  integer-like keys first.\<close>

definition sdk_config :: "(string \<times> jsval) list \<Rightarrow> (string \<times> jsval) list" where
  "sdk_config config =
     assign_props
       [(''apiEndpoint'', js_or (get_prop config ''apiEndpoint'') (JStr '''')),
        (''apiKey'', js_or (get_prop config ''apiKey'') (JStr '''')),
        (''batchInterval'', js_or (get_prop config ''batchInterval'') (JNum 30000)),
        (''enableHeatmap'', JBool (get_prop config ''enableHeatmap'' \<noteq> JBool False)),
        (''enableScrollTracking'', JBool (get_prop config ''enableScrollTracking'' \<noteq> JBool False)),
        (''enableClickTracking'', JBool (get_prop config ''enableClickTracking'' \<noteq> JBool False)),
        (''privacyMode'', js_or (get_prop config ''privacyMode'') (JStr ''opt-in'')),
        (''primaryKeyword'', js_or (get_prop config ''primaryKeyword'') JNull)]
       config"

text \<open>\<open>this.dataBatcher\<close> as the \<open>SEODataSDK\<close> constructor creates it: three arguments,
  the callback left out. The constructor's other fields (session, collectors, privacy
  manager) do not reach the batcher.\<close>

definition sdk_dataBatcher :: "(string \<times> jsval) list \<Rightarrow> bool \<Rightarrow> int \<Rightarrow> world" where
  "sdk_dataBatcher config has_window t0 =
     (let c = sdk_config config
      in new_DataBatcher (get_prop c ''apiEndpoint'') (get_prop c ''apiKey'')
           (get_prop c ''batchInterval'') JUndefined has_window t0)"

subsection \<open>Executions\<close>

text \<open>What can happen to a batcher, one synchronous run at a time: a caller invokes a
  method, the timer fires, the page unloads, the awaited send settles, time passes.\<close>

datatype action =
    Add jsval
  | Flush
  | Clear
  | Destroy
  | Tick
  | Unload
  | Settle reply
  | Elapse int

fun step :: "action \<Rightarrow> world \<Rightarrow> world" where
  "step (Add d) w = add d w"
| "step Flush w = flush w"
| "step Clear w = clear w"
| "step Destroy w = destroy w"
| "step Tick w = interval_tick w"
| "step Unload w = beforeunload w"
| "step (Settle r) w = flush_resume r w"
| "step (Elapse t) w = w\<lparr>clock := clock w + t\<rparr>"

fun run :: "action list \<Rightarrow> world \<Rightarrow> world" where
  "run [] w = w"
| "run (a # as) w = run as (step a w)"

text \<open>The actions that resume a suspended \<open>flush\<close>.\<close>

fun settles :: "action \<Rightarrow> bool" where
  "settles (Settle r) = True"
| "settles a = False"

text \<open>
  Whether the queue has room for what a failing send brings back: when the reply \<open>r\<close>
  makes the oldest suspended flush fail, the tail of its batch (at most 25 events) and the
  queue together are at most 50. A send that succeeds, or no suspended flush, always fits.
\<close>

definition requeue_fits :: "reply \<Rightarrow> world \<Rightarrow> bool" where
  "requeue_fits r w =
     (case pending w of
        [] \<Rightarrow> True
      | p # ps \<Rightarrow>
          (case snd (sendBatch_settle (route p) r) of
             Inr v \<Rightarrow> True
           | Inl e \<Rightarrow> min (length (batch p)) 25 + length (queue w) \<le> 50))"

text \<open>
  An execution in which no truthy event is added while a flush is in progress and 50
  events are queued already, and in which every send that fails finds room in the queue.
\<close>

fun mild :: "action list \<Rightarrow> world \<Rightarrow> bool" where
  "mild [] w = True"
| "mild (Add d # as) w =
     ((\<not> truthy d \<or> \<not> isProcessing w \<or> length (queue w) < 50) \<and> mild as (add d w))"
| "mild (Settle r # as) w = (requeue_fits r w \<and> mild as (flush_resume r w))"
| "mild (a # as) w = mild as (step a w)"

text \<open>Every state an execution passes through, from the first to the last, holds at most
  50 events.\<close>

fun within_capacity :: "action list \<Rightarrow> world \<Rightarrow> bool" where
  "within_capacity [] w = (length (queue w) \<le> 50)"
| "within_capacity (a # as) w = (length (queue w) \<le> 50 \<and> within_capacity as (step a w))"

text \<open>The flag is set exactly while a \<open>flush\<close> is suspended, and at most one is.\<close>

definition coherent :: "world \<Rightarrow> bool" where
  "coherent w = (isProcessing w = (pending w \<noteq> []) \<and> length (pending w) \<le> 1)"

subsection \<open>Sample inputs\<close>

definition ev :: "int \<Rightarrow> jsval" where
  "ev i = JObj [(''a'', JNum i)]"

definition rejecting :: reply where
  "rejecting = \<lparr>of_callback = CbRejects, of_fetch = FetchRejects\<rparr>"

definition resolving :: reply where
  "resolving = \<lparr>of_callback = CbResolves, of_fetch = FetchResponds True 200 ''OK'' (Some JNull)\<rparr>"

text \<open>A batcher with a callback, and one with neither endpoint nor callback.\<close>

definition with_callback :: world where
  "with_callback = new_DataBatcher JUndefined JUndefined JUndefined (JFunc 0) True 7"

definition unconfigured :: world where
  "unconfigured = new_DataBatcher JUndefined JUndefined JUndefined JUndefined True 7"

section \<open>Properties\<close>

subsection \<open>What flush and add do, by case\<close>

lemma flush_skip: "queue w = [] \<or> isProcessing w \<Longrightarrow> flush w = w"
  by (auto simp: flush_def)

lemma flush_go:
  "queue w \<noteq> [] \<Longrightarrow> \<not> isProcessing w \<Longrightarrow>
   flush w = w\<lparr>isProcessing := True, queue := [],
     sent := sent w @ [(sendBatch_route w,
       \<lparr>events = queue w, batchSize = length (queue w), timestamp = clock w\<rparr>)],
     console := console w @
       (if sendBatch_route w = Logged
        then [Info ''[Data Batcher] No endpoint or callback configured''] else []),
     pending := pending w @ [\<lparr>batch = queue w, route = sendBatch_route w\<rparr>]\<rparr>"
  by (simp add: flush_def sendBatch_begin_def sendBatch_route_def Let_def)

lemma add_in_flight:
  "isProcessing w \<Longrightarrow>
   add d w = (if truthy d then w\<lparr>queue := queue w @ [stamped (clock w) d]\<rparr> else w)"
  by (simp add: add_def Let_def flush_skip)

lemma step_in_flight:
  "isProcessing w \<Longrightarrow> \<not> settles a \<Longrightarrow>
   isProcessing (step a w) \<and> sent (step a w) = sent w \<and> pending (step a w) = pending w"
  by (cases a)
     (simp_all add: add_in_flight flush_skip clear_def destroy_def stopBatchInterval_def
       interval_tick_def beforeunload_def split: option.splits)

lemma run_in_flight:
  "isProcessing w \<Longrightarrow> list_all (\<lambda>a. \<not> settles a) acts \<Longrightarrow>
   isProcessing (run acts w) \<and> sent (run acts w) = sent w \<and> pending (run acts w) = pending w"
proof (induction acts arbitrary: w)
  case Nil
  then show ?case by simp
next
  case (Cons a acts)
  from Cons.prems have a: "\<not> settles a" and rest: "list_all (\<lambda>a. \<not> settles a) acts"
    by simp_all
  from step_in_flight [OF Cons.prems(1) a] Cons.IH [OF _ rest, of "step a w"]
  show ?case by simp
qed

lemma adds_in_flight:
  "isProcessing w \<Longrightarrow>
   run (map Add ds) w = w\<lparr>queue := queue w @ map (stamped (clock w)) (filter truthy ds)\<rparr>"
proof (induction ds arbitrary: w)
  case Nil
  then show ?case by simp
next
  case (Cons d ds)
  have p: "isProcessing (add d w)" using Cons.prems by (simp add: add_in_flight)
  show ?case using Cons.IH [OF p] Cons.prems by (simp add: add_in_flight)
qed

lemma slice_tail: "slice_from (neg_half 50) xs = drop (length xs - 25) xs"
proof -
  have "nat (max (int (length xs) - 25) 0) = length xs - 25" by arith
  then show ?thesis by (simp add: slice_from_def neg_half_def)
qed

lemma resume_failure:
  "pending w = p # ps \<Longrightarrow> snd (sendBatch_settle (route p) r) = Inl e \<Longrightarrow>
   queue (flush_resume r w) = slice_from (neg_half (maxQueueSize w)) (batch p) @ queue w
   \<and> isProcessing (flush_resume r w) = False \<and> pending (flush_resume r w) = ps
   \<and> sent (flush_resume r w) = sent w"
  by (cases "sendBatch_settle (route p) r") (simp add: flush_resume_def)

lemma resume_success:
  "pending w = p # ps \<Longrightarrow> snd (sendBatch_settle (route p) r) = Inr v \<Longrightarrow>
   queue (flush_resume r w) = queue w
   \<and> isProcessing (flush_resume r w) = False \<and> pending (flush_resume r w) = ps
   \<and> sent (flush_resume r w) = sent w"
  by (cases "sendBatch_settle (route p) r") (simp add: flush_resume_def)

subsection \<open>The flush guard\<close>

text \<open>
  Claim C1. A \<open>flush\<close> called on an empty queue or while a flush is in progress returns
  the world as it found it: no send, no change of the queue. So when a flush has started
  and is suspended at its send, whatever is called before the send settles (further
  \<open>flush\<close> calls, timer ticks, \<open>add\<close>, \<open>destroy\<close>, page unload), a second \<open>flush\<close>
  does nothing, \<open>sendBatch\<close> has been called exactly once more than before, with the
  snapshot of the first call, and the events added meanwhile are still in the queue.
\<close>

theorem flush_guard_and_overlap:
  "(queue w = [] \<or> isProcessing w \<longrightarrow> flush w = w) \<and>
   (queue w \<noteq> [] \<and> \<not> isProcessing w \<and> list_all (\<lambda>a. \<not> settles a) acts \<longrightarrow>
      flush (run acts (flush w)) = run acts (flush w) \<and>
      sent (run acts (flush w)) =
        sent w @ [(sendBatch_route w,
                   \<lparr>events = queue w, batchSize = length (queue w), timestamp = clock w\<rparr>)] \<and>
      pending (run acts (flush w)) =
        pending w @ [\<lparr>batch = queue w, route = sendBatch_route w\<rparr>]) \<and>
   (queue w \<noteq> [] \<and> \<not> isProcessing w \<longrightarrow>
      queue (flush (run (map Add ds) (flush w))) = map (stamped (clock w)) (filter truthy ds))"
proof (intro conjI impI)
  assume "queue w = [] \<or> isProcessing w"
  then show "flush w = w" by (rule flush_skip)
next
  assume h: "queue w \<noteq> [] \<and> \<not> isProcessing w \<and> list_all (\<lambda>a. \<not> settles a) acts"
  then have p: "isProcessing (flush w)" by (simp add: flush_go)
  from h have q: "list_all (\<lambda>a. \<not> settles a) acts" by simp
  note r = run_in_flight [OF p q]
  from r show "flush (run acts (flush w)) = run acts (flush w)" by (simp add: flush_skip)
  from r h show "sent (run acts (flush w)) =
        sent w @ [(sendBatch_route w,
                   \<lparr>events = queue w, batchSize = length (queue w), timestamp = clock w\<rparr>)]"
    by (simp add: flush_go)
  from r h show "pending (run acts (flush w)) =
        pending w @ [\<lparr>batch = queue w, route = sendBatch_route w\<rparr>]"
    by (simp add: flush_go)
next
  assume h: "queue w \<noteq> [] \<and> \<not> isProcessing w"
  then have p: "isProcessing (flush w)" by (simp add: flush_go)
  have "isProcessing (run (map Add ds) (flush w))"
    using adds_in_flight [OF p, of ds] p by simp
  then have "flush (run (map Add ds) (flush w)) = run (map Add ds) (flush w)"
    by (simp add: flush_skip)
  then show "queue (flush (run (map Add ds) (flush w))) = map (stamped (clock w)) (filter truthy ds)"
    using adds_in_flight [OF p, of ds] h by (simp add: flush_go)
qed

theorem flush_guard_and_overlap_witness:
  "queue with_callback = [] \<and> flush with_callback = with_callback \<and>
   queue (add (ev 1) with_callback) \<noteq> [] \<and> \<not> isProcessing (add (ev 1) with_callback) \<and>
   list_all (\<lambda>a. \<not> settles a) [Add (ev 2), Flush, Tick, Unload, Add (ev 3), Flush] \<and>
   sent (run [Add (ev 2), Flush, Tick, Unload, Add (ev 3), Flush]
          (flush (add (ev 1) with_callback))) =
     [(ViaCallback, \<lparr>events = [stamped 7 (ev 1)], batchSize = 1, timestamp = 7\<rparr>)] \<and>
   queue (flush (run (map Add [ev 2, JNull, ev 3]) (flush (add (ev 1) with_callback)))) =
     [stamped 7 (ev 2), stamped 7 (ev 3)]"
proof -
  have e: "queue with_callback = []" by code_simp
  have h: "queue (add (ev 1) with_callback) \<noteq> [] \<and> \<not> isProcessing (add (ev 1) with_callback) \<and>
      list_all (\<lambda>a. \<not> settles a) [Add (ev 2), Flush, Tick, Unload, Add (ev 3), Flush]"
    by code_simp
  have v: "sent (add (ev 1) with_callback) = [] \<and>
      sendBatch_route (add (ev 1) with_callback) = ViaCallback \<and>
      queue (add (ev 1) with_callback) = [stamped 7 (ev 1)] \<and>
      clock (add (ev 1) with_callback) = 7 \<and> truthy (ev 2) \<and> truthy (ev 3)"
    by code_simp
  from e h v flush_guard_and_overlap [of with_callback "[]" "[]"]
    flush_guard_and_overlap [of "add (ev 1) with_callback"
      "[Add (ev 2), Flush, Tick, Unload, Add (ev 3), Flush]" "[ev 2, JNull, ev 3]"]
  show ?thesis by simp
qed

subsection \<open>Failure of a send\<close>

text \<open>
  Claim C2. When the send of a suspended flush fails, the resumed flush puts the last 25
  events of its batch (the whole batch when it has at most 25), in their order, in front
  of whatever the queue holds by then, and nothing else of the batch: of a batch of 50,
  exactly 25 come back.
\<close>

theorem failed_flush_requeues_tail:
  assumes "pending w = p # ps" and "maxQueueSize w = 50"
    and "snd (sendBatch_settle (route p) r) = Inl e"
  shows "queue (flush_resume r w) = drop (length (batch p) - 25) (batch p) @ queue w \<and>
         length (drop (length (batch p) - 25) (batch p)) = min (length (batch p)) 25 \<and>
         (length (batch p) \<le> 25 \<longrightarrow> queue (flush_resume r w) = batch p @ queue w) \<and>
         (length (batch p) = 50 \<longrightarrow> length (queue (flush_resume r w)) = 25 + length (queue w))"
  using resume_failure [OF assms(1) assms(3)] assms(2)
  by (auto simp: slice_tail)

theorem failed_flush_requeues_tail_witness:
  "pending (run (map (\<lambda>i. Add (ev i)) [1..52]) with_callback) =
     [\<lparr>batch = map (\<lambda>i. stamped 7 (ev i)) [1..50], route = ViaCallback\<rparr>] \<and>
   maxQueueSize (run (map (\<lambda>i. Add (ev i)) [1..52]) with_callback) = 50 \<and>
   snd (sendBatch_settle ViaCallback rejecting) = Inl CallbackError \<and>
   queue (run (map (\<lambda>i. Add (ev i)) [1..52]) with_callback) =
     [stamped 7 (ev 51), stamped 7 (ev 52)] \<and>
   queue (flush_resume rejecting (run (map (\<lambda>i. Add (ev i)) [1..52]) with_callback)) =
     map (\<lambda>i. stamped 7 (ev i)) [26..50] @ [stamped 7 (ev 51), stamped 7 (ev 52)] \<and>
   length (queue (flush_resume rejecting (run (map (\<lambda>i. Add (ev i)) [1..52]) with_callback))) = 27"
proof -
  let ?w = "run (map (\<lambda>i. Add (ev i)) [1..52]) with_callback"
  let ?p = "\<lparr>batch = map (\<lambda>i. stamped 7 (ev i)) [1..50], route = ViaCallback\<rparr>"
  have p: "pending ?w = ?p # []" by code_simp
  have m: "maxQueueSize ?w = 50" by code_simp
  have f: "snd (sendBatch_settle (route ?p) rejecting) = Inl CallbackError" by code_simp
  have q: "queue ?w = [stamped 7 (ev 51), stamped 7 (ev 52)]" by code_simp
  have d: "drop (length (batch ?p) - 25) (batch ?p) = map (\<lambda>i. stamped 7 (ev i)) [26..50]"
    by code_simp
  from failed_flush_requeues_tail [OF p m f] p m f q d
  show ?thesis by simp
qed

subsection \<open>Events that add ignores\<close>

text \<open>
  Claim C5, as stated, fails for the empty object: \<open>{}\<close> is truthy, so \<open>add({})\<close> on a
  fresh batcher queues \<open>{_timestamp: now}\<close> and the size goes from 0 to 1.
\<close>

theorem add_empty_object_counterexample:
  "queue (add (JObj []) unconfigured) = [JObj [(''_timestamp'', JNum 7)]] \<and>
   getQueueSize unconfigured = 0 \<and> getQueueSize (add (JObj []) unconfigured) = 1"
  by code_simp

text \<open>
  Claim C5, amended. \<open>add\<close> ignores the falsy values, \<open>undefined\<close>, \<open>null\<close>,
  \<open>false\<close>, \<open>0\<close>, \<open>NaN\<close> and the empty string: the world, and so the queue and its
  size, stay as they were and nothing is reported. The empty object is not one of them:
  below capacity, \<open>add({})\<close> appends \<open>{_timestamp: now}\<close>.
\<close>

theorem add_falsy_ignored:
  "(d \<in> {JUndefined, JNull, JBool False, JNum 0, JNaN, JStr ''''} \<longrightarrow>
      add d w = w \<and> getQueueSize (add d w) = getQueueSize w) \<and>
   (length (queue w) + 1 < maxQueueSize w \<longrightarrow>
      add (JObj []) w = w\<lparr>queue := queue w @ [JObj [(''_timestamp'', JNum (clock w))]]\<rparr>)"
  by (auto simp: add_def stamped_def Let_def)

theorem add_falsy_ignored_witness:
  "JNull \<in> {JUndefined, JNull, JBool False, JNum 0, JNaN, JStr ''''} \<and>
   add JNull unconfigured = unconfigured \<and>
   length (queue unconfigured) + 1 < maxQueueSize unconfigured \<and>
   getQueueSize (add (JObj []) unconfigured) = 1"
proof -
  have h: "length (queue unconfigured) + 1 < maxQueueSize unconfigured"
    and q: "queue unconfigured = []" by code_simp+
  from add_falsy_ignored [of JNull unconfigured] h q show ?thesis
    by (simp add: getQueueSize_def)
qed

subsection \<open>The capacity\<close>

lemma step_config: "maxQueueSize (step a w) = maxQueueSize w"
  by (cases a)
     (auto simp: add_def flush_def sendBatch_begin_def clear_def destroy_def stopBatchInterval_def
       interval_tick_def beforeunload_def flush_resume_def Let_def
       split: option.splits list.splits sum.splits prod.splits)

lemma run_config: "maxQueueSize (run acts w) = maxQueueSize w"
  by (induction acts arbitrary: w) (simp_all add: step_config)

text \<open>
  Claim C7, as stated, fails: an SDK configured with \<open>capacity: 3\<close> builds a batcher whose
  maximum is 50, and three events added to it stay queued with nothing sent.
\<close>

theorem capacity_option_counterexample:
  "maxQueueSize (sdk_dataBatcher [(''capacity'', JNum 3)] True 7) = 50 \<and>
   getQueueSize (run [Add (ev 1), Add (ev 2), Add (ev 3)]
                  (sdk_dataBatcher [(''capacity'', JNum 3)] True 7)) = 3 \<and>
   sent (run [Add (ev 1), Add (ev 2), Add (ev 3)]
          (sdk_dataBatcher [(''capacity'', JNum 3)] True 7)) = []"
  by code_simp

text \<open>
  Claim C7, amended. There is no capacity option: whatever the arguments of the
  constructor and whatever the SDK's \<open>config\<close> holds, the maximum number of buffered
  events is 50, at construction and after any execution.
\<close>

theorem capacity_is_fixed:
  "maxQueueSize (new_DataBatcher ep key bi cb has_window t0) = 50 \<and>
   maxQueueSize (sdk_dataBatcher config has_window t0) = 50 \<and>
   maxQueueSize (run acts (new_DataBatcher ep key bi cb has_window t0)) = 50 \<and>
   maxQueueSize (run acts (sdk_dataBatcher config has_window t0)) = 50"
  by (simp add: run_config sdk_dataBatcher_def new_DataBatcher_def startBatchInterval_def Let_def)

theorem capacity_is_fixed_witness:
  "maxQueueSize (run [Add (ev 1), Flush, Settle resolving]
     (sdk_dataBatcher [(''capacity'', JNum 3), (''apiEndpoint'', JStr ''https://api'')] False 0)) = 50"
  using capacity_is_fixed [of JUndefined JUndefined JUndefined JUndefined False 0
      "[(''capacity'', JNum 3), (''apiEndpoint'', JStr ''https://api'')]"
      "[Add (ev 1), Flush, Settle resolving]"]
  by simp

lemma run_append: "run (as @ bs) w = run bs (run as w)"
  by (induction as arbitrary: w) simp_all

subsection \<open>The length of the queue\<close>

text \<open>
  Claim C3, as stated, fails. A fresh batcher takes 101 events in one synchronous run: the
  50th starts a flush, the next 51 are appended while it is suspended, each calling a
  \<open>flush\<close> that the flag turns away. When the send then succeeds the batcher is idle,
  with no flush pending, and holds 51 events, more than its capacity of 50.
\<close>

theorem queue_bound_counterexample:
  "maxQueueSize (run (map (\<lambda>i. Add (ev i)) [1..101] @ [Settle resolving]) unconfigured) = 50 \<and>
   length (queue (run (map (\<lambda>i. Add (ev i)) [1..101] @ [Settle resolving]) unconfigured)) = 51 \<and>
   \<not> isProcessing (run (map (\<lambda>i. Add (ev i)) [1..101] @ [Settle resolving]) unconfigured) \<and>
   pending (run (map (\<lambda>i. Add (ev i)) [1..101] @ [Settle resolving]) unconfigured) = []"
  by code_simp

lemma within_capacity_start: "within_capacity acts w \<Longrightarrow> length (queue w) \<le> 50"
  by (cases acts) simp_all

lemma within_capacity_end: "within_capacity acts w \<Longrightarrow> length (queue (run acts w)) \<le> 50"
  by (induction acts arbitrary: w) simp_all

lemma flush_shortens: "length (queue (flush w)) \<le> length (queue w)"
  by (cases "queue w = [] \<or> isProcessing w") (auto simp: flush_skip flush_go)

lemma step_mild:
  assumes "maxQueueSize w = 50" and "length (queue w) \<le> 50"
  shows "(length (queue (step a w)) \<le> 50) = mild [a] w"
proof (cases a)
  case (Add d)
  show ?thesis
  proof (cases "truthy d")
    case False
    with Add assms show ?thesis by (simp add: add_def)
  next
    case True
    show ?thesis
    proof (cases "isProcessing w")
      case True
      with \<open>truthy d\<close> Add assms show ?thesis by (auto simp: add_in_flight)
    next
      case False
      with \<open>truthy d\<close> Add assms show ?thesis
        by (cases "50 \<le> length (queue w) + 1") (auto simp: add_def Let_def flush_go)
    qed
  qed
next
  case Flush
  with assms flush_shortens [of w] show ?thesis by simp
next
  case Clear
  with assms show ?thesis by (simp add: clear_def)
next
  case Destroy
  have "queue (stopBatchInterval w) = queue w"
    by (simp add: stopBatchInterval_def split: option.splits)
  with Destroy assms flush_shortens [of "stopBatchInterval w"] show ?thesis
    by (simp add: destroy_def)
next
  case Tick
  with assms flush_shortens [of w] show ?thesis
    by (simp add: interval_tick_def split: option.splits)
next
  case Unload
  with assms flush_shortens [of w] show ?thesis by (simp add: beforeunload_def)
next
  case (Settle r)
  show ?thesis
  proof (cases "pending w")
    case Nil
    with Settle assms show ?thesis by (simp add: flush_resume_def requeue_fits_def)
  next
    case (Cons p ps)
    show ?thesis
    proof (cases "snd (sendBatch_settle (route p) r)")
      case (Inl e)
      from resume_failure [OF Cons Inl] assms Settle Cons Inl show ?thesis
        by (simp add: slice_tail requeue_fits_def min_def)
    next
      case (Inr v)
      from resume_success [OF Cons Inr] assms Settle Cons Inr show ?thesis
        by (simp add: requeue_fits_def)
    qed
  qed
next
  case (Elapse t)
  with assms show ?thesis by simp
qed

lemma mild_Cons: "mild (a # as) w = (mild [a] w \<and> mild as (step a w))"
  by (cases a) simp_all

lemma within_capacity_mild:
  "maxQueueSize w = 50 \<Longrightarrow> length (queue w) \<le> 50 \<Longrightarrow> within_capacity acts w = mild acts w"
proof (induction acts arbitrary: w)
  case Nil
  then show ?case by simp
next
  case (Cons a acts)
  note s = step_mild [OF Cons.prems, of a]
  show ?case
  proof (cases "length (queue (step a w)) \<le> 50")
    case True
    have "maxQueueSize (step a w) = 50" using Cons.prems by (simp add: step_config)
    from Cons.IH [OF this True] True s Cons.prems show ?thesis
      by (simp add: mild_Cons [of a acts])
  next
    case False
    with s have "\<not> mild [a] w" by simp
    moreover from False have "\<not> within_capacity acts (step a w)"
      using within_capacity_start [of acts "step a w"] by blast
    ultimately show ?thesis by (simp add: mild_Cons [of a acts])
  qed
qed

lemma new_fields:
  "queue (new_DataBatcher ep key bi cb has_window t0) = [] \<and>
   maxQueueSize (new_DataBatcher ep key bi cb has_window t0) = 50 \<and>
   \<not> isProcessing (new_DataBatcher ep key bi cb has_window t0) \<and>
   sent (new_DataBatcher ep key bi cb has_window t0) = [] \<and>
   pending (new_DataBatcher ep key bi cb has_window t0) = [] \<and>
   clock (new_DataBatcher ep key bi cb has_window t0) = t0"
  by (simp add: new_DataBatcher_def startBatchInterval_def)

text \<open>
  Claim C3, amended. In every execution from construction, under any interleaving of
  \<open>add\<close>, \<open>flush\<close>, \<open>clear\<close>, \<open>destroy\<close>, timer ticks, page unload, passing time and
  sends that succeed or fail, the queue holds at most 50 events after every step (more
  only inside an \<open>add\<close>, before the flush it dispatches), provided that no truthy event
  is added while a flush is in progress and 50 are queued already, and that no send fails
  while the queue is too long to take the tail of its batch within 50. The proviso is
  exact: an execution stays within 50 in all its states if and only if it meets it.
  Nothing in \<open>add\<close> enforces it: truthy events added while a flush is in progress make
  the queue longer by their number, whatever its length.
\<close>

theorem queue_within_capacity_when_mild:
  "(mild acts (new_DataBatcher ep key bi cb has_window t0) \<longrightarrow>
      length (queue (run acts (new_DataBatcher ep key bi cb has_window t0))) \<le> 50) \<and>
   within_capacity acts (new_DataBatcher ep key bi cb has_window t0) =
     mild acts (new_DataBatcher ep key bi cb has_window t0) \<and>
   (isProcessing w \<and> list_all truthy ds \<longrightarrow>
      length (queue (run (map Add ds) w)) = length (queue w) + length ds)"
proof (intro conjI impI)
  let ?w0 = "new_DataBatcher ep key bi cb has_window t0"
  from new_fields [of ep key bi cb has_window t0]
  show e: "within_capacity acts ?w0 = mild acts ?w0"
    by (intro within_capacity_mild) simp_all
  assume "mild acts ?w0"
  with e within_capacity_end [of acts ?w0]
  show "length (queue (run acts ?w0)) \<le> 50" by simp
next
  assume "isProcessing w \<and> list_all truthy ds"
  then have p: "isProcessing w" and t: "filter truthy ds = ds"
    by (simp_all add: list_all_iff)
  from adds_in_flight [OF p, of ds] t
  show "length (queue (run (map Add ds) w)) = length (queue w) + length ds" by simp
qed

theorem queue_within_capacity_when_mild_witness:
  "mild (map Add (map ev [1..75]) @ [Settle rejecting, Tick, Add (ev 76)]) with_callback \<and>
   length (queue (run (map Add (map ev [1..75]) @ [Settle rejecting, Tick, Add (ev 76)])
                    with_callback)) \<le> 50 \<and>
   within_capacity (map Add (map ev [1..75]) @ [Settle rejecting, Tick, Add (ev 76)])
     with_callback \<and>
   \<not> mild (map Add (map ev [1..76]) @ [Settle rejecting]) with_callback \<and>
   \<not> within_capacity (map Add (map ev [1..76]) @ [Settle rejecting]) with_callback \<and>
   isProcessing (flush (add (ev 1) with_callback)) \<and> list_all truthy [ev 2, ev 3] \<and>
   length (queue (run (map Add [ev 2, ev 3]) (flush (add (ev 1) with_callback)))) =
     length (queue (flush (add (ev 1) with_callback))) + length [ev 2, ev 3]"
proof -
  let ?a = "map Add (map ev [1..75]) @ [Settle rejecting, Tick, Add (ev 76)]"
  let ?b = "map Add (map ev [1..76]) @ [Settle rejecting]"
  let ?u = "flush (add (ev 1) with_callback)"
  have ha: "mild ?a with_callback" by code_simp
  have hb: "\<not> mild ?b with_callback" by code_simp
  have hu: "isProcessing ?u \<and> list_all truthy [ev 2, ev 3]" by code_simp
  note ta = queue_within_capacity_when_mild
    [of ?a JUndefined JUndefined JUndefined "JFunc 0" True 7 ?u "[ev 2, ev 3]",
     folded with_callback_def]
  note tb = queue_within_capacity_when_mild
    [of ?b JUndefined JUndefined JUndefined "JFunc 0" True 7 ?u "[ev 2, ev 3]",
     folded with_callback_def]
  from ta tb ha hb hu show ?thesis by blast
qed

subsection \<open>add\<close>

lemma map_of_set_prop:
  "map_of (set_prop k v kvs) k' = (if k' = k then Some v else map_of kvs k')"
  by (induction kvs) auto

lemma adds_below_capacity:
  "list_all truthy ds \<Longrightarrow> length (queue w) + length ds < maxQueueSize w \<Longrightarrow>
   run (map Add ds) w = w\<lparr>queue := queue w @ map (stamped (clock w)) ds\<rparr>"
proof (induction ds arbitrary: w)
  case Nil
  then show ?case by simp
next
  case (Cons d ds)
  from Cons.prems have a: "add d w = w\<lparr>queue := queue w @ [stamped (clock w) d]\<rparr>"
    by (simp add: add_def Let_def)
  from Cons.prems have "list_all truthy ds"
    and "length (queue (add d w)) + length ds < maxQueueSize (add d w)"
    by (simp_all add: a)
  from Cons.IH [OF this] show ?case by (simp add: a)
qed

lemma add_at_capacity:
  assumes "truthy d" and "length (queue w) + 1 \<ge> maxQueueSize w" and "\<not> isProcessing w"
  shows "add d w =
     w\<lparr>isProcessing := True, queue := [],
       sent := sent w @ [(sendBatch_route w,
         \<lparr>events = queue w @ [stamped (clock w) d], batchSize = length (queue w) + 1,
            timestamp = clock w\<rparr>)],
       console := console w @
         (if sendBatch_route w = Logged
          then [Info ''[Data Batcher] No endpoint or callback configured''] else []),
       pending := pending w @ [\<lparr>batch = queue w @ [stamped (clock w) d], route = sendBatch_route w\<rparr>]\<rparr>"
  using assms by (simp add: add_def Let_def flush_go sendBatch_route_def)

lemma add_pushes:
  "truthy d \<Longrightarrow>
   add d w =
     (if maxQueueSize w \<le> length (queue w) + 1
      then flush (w\<lparr>queue := queue w @ [stamped (clock w) d]\<rparr>)
      else w\<lparr>queue := queue w @ [stamped (clock w) d]\<rparr>)"
  by (simp add: add_def Let_def)

lemma adds_past_capacity:
  assumes t: "list_all truthy ds" and n: "50 \<le> length ds"
    and w: "queue w = []" "maxQueueSize w = 50" "\<not> isProcessing w"
  shows "queue (run (map Add ds) w) = map (stamped (clock w)) (drop 50 ds) \<and>
         isProcessing (run (map Add ds) w) \<and>
         sent (run (map Add ds) w) =
           sent w @ [(sendBatch_route w,
             \<lparr>events = map (stamped (clock w)) (take 50 ds), batchSize = 50,
                timestamp = clock w\<rparr>)] \<and>
         pending (run (map Add ds) w) =
           pending w @ [\<lparr>batch = map (stamped (clock w)) (take 50 ds), route = sendBatch_route w\<rparr>]"
proof -
  let ?xs = "take 49 ds" and ?d = "ds ! 49" and ?ys = "drop 50 ds"
  from n have split: "ds = ?xs @ ?d # ?ys"
    using id_take_nth_drop [of 49 ds] by simp
  from n have t50: "take 50 ds = ?xs @ [?d]"
    using take_Suc_conv_app_nth [of 49 ds] by simp
  from t have txs: "list_all truthy ?xs"
    by (auto simp: list_all_iff dest: in_set_takeD)
  from t have "\<forall>x \<in> set ?ys. truthy x"
    by (auto simp: list_all_iff dest: in_set_dropD)
  then have tys: "filter truthy ?ys = ?ys" by (rule filter_True)
  from t n have td: "truthy ?d" by (simp add: list_all_length)
  let ?w1 = "run (map Add ?xs) w"
  from n w have l: "length (queue w) + length ?xs < maxQueueSize w" by simp
  have w1: "?w1 = w\<lparr>queue := map (stamped (clock w)) ?xs\<rparr>"
    using adds_below_capacity [OF txs l] w by simp
  let ?w2 = "add ?d ?w1"
  from n w have c: "maxQueueSize ?w1 \<le> length (queue ?w1) + 1" "\<not> isProcessing ?w1"
    by (simp_all add: w1)
  note a = add_at_capacity [OF td c]
  have r: "sendBatch_route ?w1 = sendBatch_route w" by (simp add: w1 sendBatch_route_def)
  have q1: "queue ?w1 @ [stamped (clock ?w1) ?d] = map (stamped (clock w)) (take 50 ds)"
    by (simp add: w1 t50)
  have l50: "length (queue ?w1) + 1 = 50" using n by (simp add: w1)
  have w2: "isProcessing ?w2 \<and> queue ?w2 = [] \<and> clock ?w2 = clock w \<and>
     sent ?w2 = sent w @ [(sendBatch_route w,
             \<lparr>events = map (stamped (clock w)) (take 50 ds), batchSize = 50,
                timestamp = clock w\<rparr>)] \<and>
     pending ?w2 =
       pending w @ [\<lparr>batch = map (stamped (clock w)) (take 50 ds), route = sendBatch_route w\<rparr>]"
    unfolding a r q1 l50 by (simp add: w1)
  then have p2: "isProcessing ?w2" by simp
  have "run (map Add ds) w = run (map Add ?ys) ?w2"
    by (subst split) (simp add: run_append)
  also have "\<dots> = ?w2\<lparr>queue := queue ?w2 @ map (stamped (clock ?w2)) ?ys\<rparr>"
    using adds_in_flight [OF p2, of ?ys] tys by simp
  finally have e:
    "run (map Add ds) w = ?w2\<lparr>queue := queue ?w2 @ map (stamped (clock ?w2)) ?ys\<rparr>" .
  show ?thesis unfolding e using w2 by simp
qed

text \<open>
  Claim C4. A flush attempt is a call of \<open>flush\<close>, which its guard may turn away. The
  entry \<open>add\<close> queues for an object has every property of the event and \<open>_timestamp\<close>
  set to the clock. A run of \<open>add\<close> calls with truthy events that stays below capacity
  changes the world only by appending these entries at the tail of the queue, in order:
  nothing is sent, and on a fresh batcher \<open>getQueueSize\<close> is the number of events added.
  In every world, an \<open>add\<close> that brings the length to the capacity or beyond is one call
  of \<open>flush\<close> on the queue with the new entry at its tail, and \<open>add\<close> returns what that
  call returns. On an idle batcher the call goes through: \<open>sendBatch\<close> is called exactly
  once, with the whole queue including the new entry, and \<open>add\<close> returns with the queue
  empty and that flush suspended. While a flush is in progress the guard turns the call
  away: the entry stays at the tail of the queue, whatever its length, and nothing else
  changes. So of any sequence of 50 or more truthy events added to a fresh batcher, the
  first 50 go out in the one \<open>sendBatch\<close> call that the 50th \<open>add\<close> makes, and the
  others are queued in order.
\<close>

theorem add_appends_and_flushes_at_capacity:
  "get_prop (own_props (stamped now (JObj kvs))) k =
     (if k = ''_timestamp'' then JNum now else get_prop kvs k) \<and>
   (list_all truthy ds \<and> length (queue w) + length ds < maxQueueSize w \<longrightarrow>
      run (map Add ds) w = w\<lparr>queue := queue w @ map (stamped (clock w)) ds\<rparr> \<and>
      getQueueSize (run (map Add ds) w) = getQueueSize w + length ds) \<and>
   (list_all truthy ds \<and> length ds < 50 \<longrightarrow>
      getQueueSize (run (map Add ds) (new_DataBatcher ep key bi cb has_window t0)) = length ds \<and>
      sent (run (map Add ds) (new_DataBatcher ep key bi cb has_window t0)) = [] \<and>
      pending (run (map Add ds) (new_DataBatcher ep key bi cb has_window t0)) = []) \<and>
   (truthy d \<and> length (queue w) + 1 \<ge> maxQueueSize w \<and> \<not> isProcessing w \<longrightarrow>
      queue (add d w) = [] \<and>
      sent (add d w) = sent w @ [(sendBatch_route w,
         \<lparr>events = queue w @ [stamped (clock w) d], batchSize = length (queue w) + 1,
            timestamp = clock w\<rparr>)] \<and>
      pending (add d w) =
        pending w @ [\<lparr>batch = queue w @ [stamped (clock w) d], route = sendBatch_route w\<rparr>]) \<and>
   (truthy d \<and> length (queue w) + 1 \<ge> maxQueueSize w \<longrightarrow>
      add d w = flush (w\<lparr>queue := queue w @ [stamped (clock w) d]\<rparr>)) \<and>
   (truthy d \<and> isProcessing w \<longrightarrow>
      add d w = w\<lparr>queue := queue w @ [stamped (clock w) d]\<rparr>) \<and>
   (list_all truthy ds \<and> 50 \<le> length ds \<longrightarrow>
      queue (run (map Add ds) (new_DataBatcher ep key bi cb has_window t0)) =
        map (stamped t0) (drop 50 ds) \<and>
      sent (run (map Add ds) (new_DataBatcher ep key bi cb has_window t0)) =
        [(sendBatch_route (new_DataBatcher ep key bi cb has_window t0),
          \<lparr>events = map (stamped t0) (take 50 ds), batchSize = 50, timestamp = t0\<rparr>)] \<and>
      pending (run (map Add ds) (new_DataBatcher ep key bi cb has_window t0)) =
        [\<lparr>batch = map (stamped t0) (take 50 ds),
          route = sendBatch_route (new_DataBatcher ep key bi cb has_window t0)\<rparr>])"
proof (intro conjI impI)
  show "get_prop (own_props (stamped now (JObj kvs))) k =
     (if k = ''_timestamp'' then JNum now else get_prop kvs k)"
    by (simp add: stamped_def get_prop_def map_of_set_prop)
next
  assume h: "list_all truthy ds \<and> length (queue w) + length ds < maxQueueSize w"
  then show "run (map Add ds) w = w\<lparr>queue := queue w @ map (stamped (clock w)) ds\<rparr>"
    by (simp add: adds_below_capacity)
  then show "getQueueSize (run (map Add ds) w) = getQueueSize w + length ds"
    by (simp add: getQueueSize_def)
next
  let ?w = "new_DataBatcher ep key bi cb has_window t0"
  assume h: "list_all truthy ds \<and> length ds < 50"
  have f: "queue ?w = [] \<and> maxQueueSize ?w = 50 \<and> sent ?w = [] \<and> pending ?w = []"
    by (simp add: new_DataBatcher_def startBatchInterval_def)
  with h have r: "run (map Add ds) ?w = ?w\<lparr>queue := queue ?w @ map (stamped (clock ?w)) ds\<rparr>"
    by (intro adds_below_capacity) simp_all
  from r f show "getQueueSize (run (map Add ds) ?w) = length ds"
    by (simp add: getQueueSize_def)
  from r f show "sent (run (map Add ds) ?w) = []" by simp
  from r f show "pending (run (map Add ds) ?w) = []" by simp
next
  assume h: "truthy d \<and> maxQueueSize w \<le> length (queue w) + 1 \<and> \<not> isProcessing w"
  then have a: "truthy d" "length (queue w) + 1 \<ge> maxQueueSize w" "\<not> isProcessing w"
    by simp_all
  note e = add_at_capacity [OF a]
  show "queue (add d w) = []" by (simp add: e)
  show "sent (add d w) = sent w @ [(sendBatch_route w,
         \<lparr>events = queue w @ [stamped (clock w) d], batchSize = length (queue w) + 1,
            timestamp = clock w\<rparr>)]" by (simp add: e)
  show "pending (add d w) =
        pending w @ [\<lparr>batch = queue w @ [stamped (clock w) d], route = sendBatch_route w\<rparr>]"
    by (simp add: e)
next
  assume "truthy d \<and> maxQueueSize w \<le> length (queue w) + 1"
  then show "add d w = flush (w\<lparr>queue := queue w @ [stamped (clock w) d]\<rparr>)"
    by (simp add: add_pushes)
next
  assume "truthy d \<and> isProcessing w"
  then show "add d w = w\<lparr>queue := queue w @ [stamped (clock w) d]\<rparr>"
    by (simp add: add_in_flight)
next
  let ?w = "new_DataBatcher ep key bi cb has_window t0"
  assume h: "list_all truthy ds \<and> 50 \<le> length ds"
  then have t: "list_all truthy ds" and n: "50 \<le> length ds" by simp_all
  note f = new_fields [of ep key bi cb has_window t0]
  from f have w: "queue ?w = []" "maxQueueSize ?w = 50" "\<not> isProcessing ?w" by simp_all
  note p = adds_past_capacity [OF t n w]
  from p f show "queue (run (map Add ds) ?w) = map (stamped t0) (drop 50 ds)" by simp
  from p f show "sent (run (map Add ds) ?w) =
        [(sendBatch_route ?w,
          \<lparr>events = map (stamped t0) (take 50 ds), batchSize = 50, timestamp = t0\<rparr>)]"
    by simp
  from p f show "pending (run (map Add ds) ?w) =
        [\<lparr>batch = map (stamped t0) (take 50 ds), route = sendBatch_route ?w\<rparr>]"
    by simp
qed

theorem add_appends_and_flushes_at_capacity_witness:
  "list_all truthy (map ev [1..49]) \<and> length (map ev [1..49]) < 50 \<and>
   getQueueSize (run (map Add (map ev [1..49])) with_callback) = length (map ev [1..49]) \<and>
   sent (run (map Add (map ev [1..49])) with_callback) = [] \<and>
   truthy (ev 50) \<and>
   length (queue (run (map Add (map ev [1..49])) with_callback)) + 1
     \<ge> maxQueueSize (run (map Add (map ev [1..49])) with_callback) \<and>
   \<not> isProcessing (run (map Add (map ev [1..49])) with_callback) \<and>
   queue (add (ev 50) (run (map Add (map ev [1..49])) with_callback)) = [] \<and>
   sent (add (ev 50) (run (map Add (map ev [1..49])) with_callback)) =
     [(ViaCallback, \<lparr>events = map (stamped 7) (map ev [1..50]), batchSize = 50, timestamp = 7\<rparr>)] \<and>
   truthy (ev 100) \<and>
   isProcessing (run (map Add (map ev [1..99])) with_callback) \<and>
   length (queue (run (map Add (map ev [1..99])) with_callback)) + 1
     \<ge> maxQueueSize (run (map Add (map ev [1..99])) with_callback) \<and>
   add (ev 100) (run (map Add (map ev [1..99])) with_callback) =
     flush ((run (map Add (map ev [1..99])) with_callback)
       \<lparr>queue := queue (run (map Add (map ev [1..99])) with_callback) @
          [stamped (clock (run (map Add (map ev [1..99])) with_callback)) (ev 100)]\<rparr>) \<and>
   add (ev 100) (run (map Add (map ev [1..99])) with_callback) =
     (run (map Add (map ev [1..99])) with_callback)
       \<lparr>queue := queue (run (map Add (map ev [1..99])) with_callback) @
          [stamped (clock (run (map Add (map ev [1..99])) with_callback)) (ev 100)]\<rparr> \<and>
   list_all truthy (map ev [1..100]) \<and> 50 \<le> length (map ev [1..100]) \<and>
   queue (run (map Add (map ev [1..100])) with_callback) =
     map (stamped 7) (drop 50 (map ev [1..100])) \<and>
   sent (run (map Add (map ev [1..100])) with_callback) =
     [(sendBatch_route with_callback,
       \<lparr>events = map (stamped 7) (take 50 (map ev [1..100])), batchSize = 50, timestamp = 7\<rparr>)]"
proof -
  let ?v = "run (map Add (map ev [1..49])) with_callback"
  let ?u = "run (map Add (map ev [1..99])) with_callback"
  have h1: "list_all truthy (map ev [1..49]) \<and> length (map ev [1..49]) < 50" by code_simp
  have h2: "truthy (ev 50) \<and> length (queue ?v) + 1 \<ge> maxQueueSize ?v \<and> \<not> isProcessing ?v"
    by code_simp
  have v: "sent ?v = [] \<and> sendBatch_route ?v = ViaCallback \<and> clock ?v = 7 \<and>
      queue ?v @ [stamped 7 (ev 50)] = map (stamped 7) (map ev [1..50]) \<and> length (queue ?v) = 49"
    by code_simp
  have h3: "truthy (ev 100) \<and> isProcessing ?u \<and> length (queue ?u) + 1 \<ge> maxQueueSize ?u"
    by code_simp
  have h4: "list_all truthy (map ev [1..100]) \<and> 50 \<le> length (map ev [1..100])" by code_simp
  note t1 = add_appends_and_flushes_at_capacity
    [of 0 "[]" "[]" "map ev [1..49]" ?v JUndefined JUndefined JUndefined "JFunc 0" True 7 "ev 50",
     folded with_callback_def]
  note t2 = add_appends_and_flushes_at_capacity
    [of 0 "[]" "[]" "map ev [1..100]" ?u JUndefined JUndefined JUndefined "JFunc 0" True 7 "ev 100",
     folded with_callback_def]
  from t1 h1 have c1: "getQueueSize ?v = length (map ev [1..49]) \<and> sent ?v = []" by blast
  from t1 h2 have "queue (add (ev 50) ?v) = [] \<and>
      sent (add (ev 50) ?v) = sent ?v @ [(sendBatch_route ?v,
         \<lparr>events = queue ?v @ [stamped (clock ?v) (ev 50)], batchSize = length (queue ?v) + 1,
            timestamp = clock ?v\<rparr>)]" by blast
  with v have c2: "queue (add (ev 50) ?v) = [] \<and>
      sent (add (ev 50) ?v) =
        [(ViaCallback, \<lparr>events = map (stamped 7) (map ev [1..50]), batchSize = 50, timestamp = 7\<rparr>)]"
    by simp
  from t2 h3 have c3: "add (ev 100) ?u =
      flush (?u\<lparr>queue := queue ?u @ [stamped (clock ?u) (ev 100)]\<rparr>) \<and>
      add (ev 100) ?u = ?u\<lparr>queue := queue ?u @ [stamped (clock ?u) (ev 100)]\<rparr>" by blast
  from t2 h4 have c4: "queue (run (map Add (map ev [1..100])) with_callback) =
       map (stamped 7) (drop 50 (map ev [1..100])) \<and>
     sent (run (map Add (map ev [1..100])) with_callback) =
       [(sendBatch_route with_callback,
         \<lparr>events = map (stamped 7) (take 50 (map ev [1..100])), batchSize = 50, timestamp = 7\<rparr>)]"
    by blast
  from h1 c1 h2 c2 h3 c3 h4 c4 show ?thesis by blast
qed

subsection \<open>No endpoint and no callback\<close>

text \<open>
  Claim C6. With a falsy endpoint and no callback function, \<open>sendBatch\<close> logs and
  resolves with \<open>{success: true, logged: true}\<close>, whatever the host would answer. A flush
  of an idle batcher then ends with the world as it was, except that the queue is empty,
  the call of \<open>sendBatch\<close> is recorded and the one line is logged: no failure is logged,
  the flag is clear again and \<open>getQueueSize\<close> is 0.
\<close>

theorem unconfigured_flush_succeeds:
  assumes "\<not> truthy (apiEndpoint w)"
    and "\<not> (truthy (onDataCallback w) \<and> typeof (onDataCallback w) = ''function'')"
    and "queue w \<noteq> []" and "\<not> isProcessing w" and "pending w = []"
  shows "sendBatch_route w = Logged \<and>
         sendBatch_settle Logged r =
           ([], Inr (JObj [(''success'', JBool True), (''logged'', JBool True)])) \<and>
         flush_resume r (flush w) =
           w\<lparr>queue := [],
             sent := sent w @ [(Logged,
               \<lparr>events = queue w, batchSize = length (queue w), timestamp = clock w\<rparr>)],
             console := console w @ [Info ''[Data Batcher] No endpoint or callback configured'']\<rparr> \<and>
         getQueueSize (flush_resume r (flush w)) = 0"
proof -
  from assms(1,2) have r: "sendBatch_route w = Logged" by (auto simp: sendBatch_route_def)
  have f: "isProcessing w = False" using assms(4) by simp
  have e: "flush_resume r (flush w) =
           w\<lparr>queue := [],
             sent := sent w @ [(Logged,
               \<lparr>events = queue w, batchSize = length (queue w), timestamp = clock w\<rparr>)],
             console := console w @ [Info ''[Data Batcher] No endpoint or callback configured'']\<rparr>"
    using assms(3,4,5) r f by (simp add: flush_go flush_resume_def)
  from r e show ?thesis by (simp add: getQueueSize_def)
qed

theorem unconfigured_flush_succeeds_witness:
  "\<not> truthy (apiEndpoint (add (ev 1) (sdk_dataBatcher [] True 7))) \<and>
   \<not> (truthy (onDataCallback (add (ev 1) (sdk_dataBatcher [] True 7))) \<and>
      typeof (onDataCallback (add (ev 1) (sdk_dataBatcher [] True 7))) = ''function'') \<and>
   queue (add (ev 1) (sdk_dataBatcher [] True 7)) \<noteq> [] \<and>
   \<not> isProcessing (add (ev 1) (sdk_dataBatcher [] True 7)) \<and>
   pending (add (ev 1) (sdk_dataBatcher [] True 7)) = [] \<and>
   getQueueSize (flush_resume rejecting (flush (add (ev 1) (sdk_dataBatcher [] True 7)))) = 0"
proof -
  let ?w = "add (ev 1) (sdk_dataBatcher [] True 7)"
  have h1: "\<not> truthy (apiEndpoint ?w)" by code_simp
  have h2: "\<not> (truthy (onDataCallback ?w) \<and> typeof (onDataCallback ?w) = ''function'')"
    by code_simp
  have h3: "queue ?w \<noteq> []" by code_simp
  have h4: "\<not> isProcessing ?w" by code_simp
  have h5: "pending ?w = []" by code_simp
  from unconfigured_flush_succeeds [OF h1 h2 h3 h4 h5, of rejecting] h1 h2 h3 h4 h5
  show ?thesis by (simp add: getQueueSize_def)
qed

subsection \<open>The flag after a flush\<close>

lemma flush_coherent: "coherent w \<Longrightarrow> coherent (flush w)"
  by (cases "queue w = [] \<or> isProcessing w") (auto simp: coherent_def flush_skip flush_go)

lemma resume_idle: "coherent w \<Longrightarrow> \<not> isProcessing (flush_resume r w) \<and> pending (flush_resume r w) = []"
proof (cases "pending w")
  case Nil
  moreover assume "coherent w"
  ultimately show ?thesis by (simp add: flush_resume_def coherent_def)
next
  case (Cons p ps)
  moreover assume "coherent w"
  ultimately have ps: "ps = []" by (simp add: coherent_def)
  show ?thesis
  proof (cases "snd (sendBatch_settle (route p) r)")
    case (Inl e)
    from resume_failure [OF Cons Inl] ps show ?thesis by simp
  next
    case (Inr v)
    from resume_success [OF Cons Inr] ps show ?thesis by simp
  qed
qed

lemma step_coherent: "coherent w \<Longrightarrow> coherent (step a w)"
proof (cases a)
  case (Add d)
  moreover assume c: "coherent w"
  moreover have "coherent (w\<lparr>queue := queue w @ [stamped (clock w) d]\<rparr>)"
    using c by (simp add: coherent_def)
  ultimately show ?thesis
    using flush_coherent [of "w\<lparr>queue := queue w @ [stamped (clock w) d]\<rparr>"]
    by (simp add: add_def Let_def)
next
  case Flush
  moreover assume "coherent w"
  ultimately show ?thesis by (simp add: flush_coherent)
next
  case Clear
  moreover assume "coherent w"
  ultimately show ?thesis by (simp add: clear_def coherent_def)
next
  case Destroy
  moreover assume c: "coherent w"
  moreover have "coherent (stopBatchInterval w)"
    using c by (simp add: stopBatchInterval_def coherent_def split: option.splits)
  ultimately show ?thesis by (simp add: destroy_def flush_coherent)
next
  case Tick
  moreover assume "coherent w"
  ultimately show ?thesis by (simp add: interval_tick_def flush_coherent split: option.splits)
next
  case Unload
  moreover assume "coherent w"
  ultimately show ?thesis by (simp add: beforeunload_def flush_coherent)
next
  case (Settle r)
  moreover assume "coherent w"
  ultimately show ?thesis using resume_idle [of w r] by (simp add: coherent_def)
next
  case (Elapse t)
  moreover assume "coherent w"
  ultimately show ?thesis by (simp add: coherent_def)
qed

lemma run_coherent: "coherent w \<Longrightarrow> coherent (run acts w)"
  by (induction acts arbitrary: w) (simp_all add: step_coherent)

lemma new_coherent: "coherent (new_DataBatcher ep key bi cb has_window t0)"
  by (simp add: coherent_def new_DataBatcher_def startBatchInterval_def)

lemma tail_nonempty: "xs \<noteq> [] \<Longrightarrow> slice_from (neg_half 50) xs \<noteq> []"
  by (cases xs) (simp_all add: slice_tail)

text \<open>
  Claim C8. Resuming a suspended flush clears \<open>isProcessing\<close> whatever the reply: the
  callback or \<open>fetch\<close> resolving, rejecting or throwing. In every execution from
  construction the flag is clear right after a send settles, and it is set only while a
  flush is suspended. After a failed send of an idle batcher's queue the flag is clear, the
  tail of the batch is back in the queue, and the next \<open>flush\<close> calls \<open>sendBatch\<close>
  again.
\<close>

theorem flush_always_resets_flag:
  "(pending w \<noteq> [] \<longrightarrow> \<not> isProcessing (flush_resume r w)) \<and>
   \<not> isProcessing (run (acts @ [Settle r]) (new_DataBatcher ep key bi cb has_window t0)) \<and>
   (isProcessing (run acts (new_DataBatcher ep key bi cb has_window t0)) \<longrightarrow>
      pending (run acts (new_DataBatcher ep key bi cb has_window t0)) \<noteq> []) \<and>
   (queue w \<noteq> [] \<and> \<not> isProcessing w \<and> pending w = [] \<and> maxQueueSize w = 50 \<and>
    snd (sendBatch_settle (sendBatch_route w) r) = Inl e \<longrightarrow>
      \<not> isProcessing (flush_resume r (flush w)) \<and>
      queue (flush_resume r (flush w)) = drop (length (queue w) - 25) (queue w) \<and>
      length (sent (flush (flush_resume r (flush w)))) = length (sent w) + 2)"
proof (intro conjI impI)
  assume "pending w \<noteq> []"
  then obtain p ps where p: "pending w = p # ps" by (cases "pending w") auto
  show "\<not> isProcessing (flush_resume r w)"
  proof (cases "snd (sendBatch_settle (route p) r)")
    case (Inl e)
    from resume_failure [OF p Inl] show ?thesis by simp
  next
    case (Inr v)
    from resume_success [OF p Inr] show ?thesis by simp
  qed
next
  let ?w0 = "new_DataBatcher ep key bi cb has_window t0"
  have c: "coherent (run acts ?w0)" by (rule run_coherent [OF new_coherent])
  from resume_idle [OF c, of r] show "\<not> isProcessing (run (acts @ [Settle r]) ?w0)"
    by (simp add: run_append)
  assume "isProcessing (run acts ?w0)"
  with c show "pending (run acts ?w0) \<noteq> []" by (simp add: coherent_def)
next
  assume h: "queue w \<noteq> [] \<and> \<not> isProcessing w \<and> pending w = [] \<and> maxQueueSize w = 50 \<and>
    snd (sendBatch_settle (sendBatch_route w) r) = Inl e"
  let ?p = "\<lparr>batch = queue w, route = sendBatch_route w\<rparr>"
  from h have p: "pending (flush w) = ?p # []" by (simp add: flush_go)
  from h have f: "snd (sendBatch_settle (route ?p) r) = Inl e" by simp
  note x = resume_failure [OF p f]
  from h have q0: "queue (flush w) = [] \<and> maxQueueSize (flush w) = 50 \<and>
      sent (flush w) = sent w @ [(sendBatch_route w,
       \<lparr>events = queue w, batchSize = length (queue w), timestamp = clock w\<rparr>)]"
    by (simp add: flush_go)
  from x show "\<not> isProcessing (flush_resume r (flush w))" by simp
  from x q0 show q: "queue (flush_resume r (flush w)) = drop (length (queue w) - 25) (queue w)"
    by (simp add: slice_tail)
  from x q0 h tail_nonempty [of "queue w"]
  have "queue (flush_resume r (flush w)) \<noteq> []" by simp
  with x q0 show "length (sent (flush (flush_resume r (flush w)))) = length (sent w) + 2"
    by (simp add: flush_go)
qed

theorem flush_always_resets_flag_witness:
  "pending (flush (add (ev 1) with_callback)) \<noteq> [] \<and>
   \<not> isProcessing (flush_resume \<lparr>of_callback = CbThrows, of_fetch = FetchThrows\<rparr>
                     (flush (add (ev 1) with_callback))) \<and>
   isProcessing (run [Add (ev 1), Flush] with_callback) \<and>
   pending (run [Add (ev 1), Flush] with_callback) \<noteq> [] \<and>
   queue (add (ev 1) with_callback) \<noteq> [] \<and> \<not> isProcessing (add (ev 1) with_callback) \<and>
   pending (add (ev 1) with_callback) = [] \<and> maxQueueSize (add (ev 1) with_callback) = 50 \<and>
   snd (sendBatch_settle (sendBatch_route (add (ev 1) with_callback))
         \<lparr>of_callback = CbThrows, of_fetch = FetchThrows\<rparr>) = Inl CallbackError \<and>
   length (sent (flush (flush_resume \<lparr>of_callback = CbThrows, of_fetch = FetchThrows\<rparr>
                          (flush (add (ev 1) with_callback))))) = 2"
proof -
  let ?w = "add (ev 1) with_callback"
  let ?r = "\<lparr>of_callback = CbThrows, of_fetch = FetchThrows\<rparr>"
  have h1: "pending (flush ?w) \<noteq> []" by code_simp
  have h2: "isProcessing (run [Add (ev 1), Flush] with_callback)" by code_simp
  have h3: "queue ?w \<noteq> [] \<and> \<not> isProcessing ?w \<and> pending ?w = [] \<and> maxQueueSize ?w = 50 \<and>
     snd (sendBatch_settle (sendBatch_route ?w) ?r) = Inl CallbackError" by code_simp
  have v: "sent ?w = []" by code_simp
  from flush_always_resets_flag [of "flush ?w" ?r "[Add (ev 1), Flush]" JUndefined JUndefined
         JUndefined "JFunc 0" True 7 CallbackError, folded with_callback_def]
       flush_always_resets_flag [of ?w ?r "[Add (ev 1), Flush]" JUndefined JUndefined
         JUndefined "JFunc 0" True 7 CallbackError, folded with_callback_def]
       h1 h2 h3 v
  show ?thesis by simp
qed

subsection \<open>clear and destroy\<close>

text \<open>
  Claim C9. One event is added and flushed through a callback; while that flush is
  suspended \<open>clear\<close> empties the queue (size 0); the callback then rejects and the
  resumed flush puts the event back (size 1), with no \<open>add\<close> in between. \<open>clear\<close>
  changes the queue and nothing else: not the flag, the suspended flush or the timer.
\<close>

theorem clear_in_flight_not_final:
  "getQueueSize (run [Add (ev 1), Flush, Clear] with_callback) = 0 \<and>
   isProcessing (run [Add (ev 1), Flush, Clear] with_callback) \<and>
   queue (run [Add (ev 1), Flush, Clear, Settle rejecting] with_callback) = [stamped 7 (ev 1)] \<and>
   getQueueSize (run [Add (ev 1), Flush, Clear, Settle rejecting] with_callback) = 1 \<and>
   clear w = w\<lparr>queue := []\<rparr> \<and>
   isProcessing (clear w) = isProcessing w \<and> pending (clear w) = pending w \<and>
   timers (clear w) = timers w \<and> interval (clear w) = interval w"
proof -
  have "getQueueSize (run [Add (ev 1), Flush, Clear] with_callback) = 0 \<and>
   isProcessing (run [Add (ev 1), Flush, Clear] with_callback) \<and>
   queue (run [Add (ev 1), Flush, Clear, Settle rejecting] with_callback) = [stamped 7 (ev 1)] \<and>
   getQueueSize (run [Add (ev 1), Flush, Clear, Settle rejecting] with_callback) = 1"
    by code_simp
  then show ?thesis by (simp add: clear_def)
qed

theorem clear_in_flight_not_final_witness:
  "getQueueSize (run [Add (ev 1), Flush, Clear, Settle rejecting] with_callback) = 1 \<and>
   isProcessing (clear (run [Add (ev 1), Flush] with_callback)) =
     isProcessing (run [Add (ev 1), Flush] with_callback) \<and>
   timers (clear (run [Add (ev 1), Flush] with_callback)) =
     timers (run [Add (ev 1), Flush] with_callback)"
  using clear_in_flight_not_final [of "run [Add (ev 1), Flush] with_callback"]
  by blast

lemma stop_only_timers: "stopBatchInterval w = w\<lparr>timers := timers (stopBatchInterval w)\<rparr>"
  by (simp add: stopBatchInterval_def split: option.splits)

lemma destroy_as_flush: "destroy w = (flush w)\<lparr>timers := timers (stopBatchInterval w)\<rparr>"
proof -
  have f: "\<And>ts. flush (w\<lparr>timers := ts\<rparr>) = (flush w)\<lparr>timers := ts\<rparr>"
    by (simp add: flush_def sendBatch_begin_def sendBatch_route_def Let_def)
  have "destroy w = flush (w\<lparr>timers := timers (stopBatchInterval w)\<rparr>)"
    using stop_only_timers [of w] by (simp add: destroy_def)
  then show ?thesis by (simp add: f)
qed

text \<open>
  Claim C10. \<open>destroy\<close> is \<open>flush\<close> together with the removal of the batcher's timer
  from the host's timers, and only the removal when the flush has nothing to do. No field
  marks the batcher as destroyed: in any later state a truthy event is still appended by
  \<open>add\<close> (below capacity, or while a flush is in progress), an \<open>add\<close> that reaches capacity on an idle batcher still calls
  \<open>sendBatch\<close>, and so does \<open>flush\<close> on an idle batcher with a non-empty queue.
\<close>

theorem destroy_leaves_batcher_usable:
  "destroy w = (flush w)\<lparr>timers := timers (stopBatchInterval w)\<rparr> \<and>
   (queue w = [] \<or> isProcessing w \<longrightarrow> destroy w = w\<lparr>timers := timers (stopBatchInterval w)\<rparr>) \<and>
   (truthy d \<and>
    (length (queue (run acts (destroy w))) + 1 < maxQueueSize (run acts (destroy w)) \<or>
     isProcessing (run acts (destroy w))) \<longrightarrow>
      queue (add d (run acts (destroy w))) =
        queue (run acts (destroy w)) @ [stamped (clock (run acts (destroy w))) d]) \<and>
   (truthy d \<and> length (queue (run acts (destroy w))) + 1 \<ge> maxQueueSize (run acts (destroy w)) \<and>
    \<not> isProcessing (run acts (destroy w)) \<longrightarrow>
      sent (add d (run acts (destroy w))) =
        sent (run acts (destroy w)) @
          [(sendBatch_route (run acts (destroy w)),
            \<lparr>events = queue (run acts (destroy w)) @ [stamped (clock (run acts (destroy w))) d],
               batchSize = length (queue (run acts (destroy w))) + 1,
               timestamp = clock (run acts (destroy w))\<rparr>)]) \<and>
   (queue (run acts (destroy w)) \<noteq> [] \<and> \<not> isProcessing (run acts (destroy w)) \<longrightarrow>
      sent (flush (run acts (destroy w))) =
        sent (run acts (destroy w)) @
          [(sendBatch_route (run acts (destroy w)),
            \<lparr>events = queue (run acts (destroy w)),
               batchSize = length (queue (run acts (destroy w))),
               timestamp = clock (run acts (destroy w))\<rparr>)])"
proof (intro conjI impI)
  show "destroy w = (flush w)\<lparr>timers := timers (stopBatchInterval w)\<rparr>"
    by (rule destroy_as_flush)
next
  assume "queue w = [] \<or> isProcessing w"
  then show "destroy w = w\<lparr>timers := timers (stopBatchInterval w)\<rparr>"
    by (simp add: destroy_as_flush flush_skip)
next
  let ?v = "run acts (destroy w)"
  assume "truthy d \<and> (length (queue ?v) + 1 < maxQueueSize ?v \<or> isProcessing ?v)"
  then show "queue (add d ?v) = queue ?v @ [stamped (clock ?v) d]"
    by (auto simp: add_def Let_def flush_skip)
next
  let ?v = "run acts (destroy w)"
  assume "truthy d \<and> maxQueueSize ?v \<le> length (queue ?v) + 1 \<and> \<not> isProcessing ?v"
  then show "sent (add d ?v) = sent ?v @
          [(sendBatch_route ?v,
            \<lparr>events = queue ?v @ [stamped (clock ?v) d], batchSize = length (queue ?v) + 1,
               timestamp = clock ?v\<rparr>)]"
    by (simp add: add_def Let_def flush_go sendBatch_route_def)
next
  let ?v = "run acts (destroy w)"
  assume "queue ?v \<noteq> [] \<and> \<not> isProcessing ?v"
  then show "sent (flush ?v) = sent ?v @
          [(sendBatch_route ?v,
            \<lparr>events = queue ?v, batchSize = length (queue ?v), timestamp = clock ?v\<rparr>)]"
    by (simp add: flush_go)
qed

theorem destroy_leaves_batcher_usable_witness:
  "queue unconfigured = [] \<and>
   destroy unconfigured = unconfigured\<lparr>timers := timers (stopBatchInterval unconfigured)\<rparr> \<and>
   timers unconfigured = [1] \<and> timers (stopBatchInterval unconfigured) = [] \<and>
   truthy (ev 50) \<and>
   length (queue (run (map Add (map ev [1..49])) (destroy unconfigured))) + 1
     \<ge> maxQueueSize (run (map Add (map ev [1..49])) (destroy unconfigured)) \<and>
   \<not> isProcessing (run (map Add (map ev [1..49])) (destroy unconfigured)) \<and>
   sent (add (ev 50) (run (map Add (map ev [1..49])) (destroy unconfigured))) =
     [] @ [(Logged, \<lparr>events = map (stamped 7) (map ev [1..50]), batchSize = 49 + 1, timestamp = 7\<rparr>)] \<and>
   queue (run [Add (ev 1)] (destroy unconfigured)) \<noteq> [] \<and>
   \<not> isProcessing (run [Add (ev 1)] (destroy unconfigured)) \<and>
   sent (flush (run [Add (ev 1)] (destroy unconfigured))) =
     [] @ [(Logged, \<lparr>events = [stamped 7 (ev 1)], batchSize = length [stamped 7 (ev 1)],
                      timestamp = 7\<rparr>)]"
proof -
  let ?v = "run (map Add (map ev [1..49])) (destroy unconfigured)"
  let ?u = "run [Add (ev 1)] (destroy unconfigured)"
  have h0: "queue unconfigured = []" by code_simp
  have t0: "timers unconfigured = [1] \<and> timers (stopBatchInterval unconfigured) = []"
    by code_simp
  have h1: "truthy (ev 50) \<and> length (queue ?v) + 1 \<ge> maxQueueSize ?v \<and> \<not> isProcessing ?v"
    by code_simp
  have e1: "sent ?v = []" "sendBatch_route ?v = Logged" "clock ?v = 7" "length (queue ?v) = 49"
    "queue ?v @ [stamped 7 (ev 50)] = map (stamped 7) (map ev [1..50])" by code_simp+
  have h2: "queue ?u \<noteq> [] \<and> \<not> isProcessing ?u" by code_simp
  have e2: "sent ?u = []" "sendBatch_route ?u = Logged" "clock ?u = 7"
    "queue ?u = [stamped 7 (ev 1)]" by code_simp+
  note t1 = destroy_leaves_batcher_usable [of unconfigured "ev 50" "map Add (map ev [1..49])"]
  note t2 = destroy_leaves_batcher_usable [of unconfigured "ev 1" "[Add (ev 1)]"]
  from t1 h0 have c0: "destroy unconfigured =
      unconfigured\<lparr>timers := timers (stopBatchInterval unconfigured)\<rparr>" by blast
  from t1 h1 have "sent (add (ev 50) ?v) = sent ?v @
      [(sendBatch_route ?v,
        \<lparr>events = queue ?v @ [stamped (clock ?v) (ev 50)], batchSize = length (queue ?v) + 1,
           timestamp = clock ?v\<rparr>)]" by blast
  then have c1: "sent (add (ev 50) ?v) =
      [] @ [(Logged, \<lparr>events = map (stamped 7) (map ev [1..50]), batchSize = 49 + 1, timestamp = 7\<rparr>)]"
    by (simp only: e1)
  from t2 h2 have "sent (flush ?u) = sent ?u @
      [(sendBatch_route ?u,
        \<lparr>events = queue ?u, batchSize = length (queue ?u), timestamp = clock ?u\<rparr>)]" by blast
  then have c2: "sent (flush ?u) =
      [] @ [(Logged, \<lparr>events = [stamped 7 (ev 1)], batchSize = length [stamped 7 (ev 1)],
                       timestamp = 7\<rparr>)]"
    by (simp only: e2)
  from h0 c0 t0 h1 c1 h2 c2 show ?thesis by blast
qed

end
